theory Spec2Isabelle
  imports Main "HOL-Library.AList" "HOL-Library.Char_ord" "HOL-Library.List_Lexorder"
begin

section \<open>Python values, keyword arguments and cache keys\<close>

text \<open>
  The arguments of a cached call are Python objects. The model keeps the objects whose
  equality is structural, and one unhashable kind (\<open>list\<close>): \<open>None\<close>, \<open>int\<close> (unbounded),
  \<open>str\<close>, \<open>tuple\<close> and \<open>list\<close>. A tuple is hashable when all its items are; a list never is.
\<close>

datatype pyval =
    PNone
  | PInt int
  | PStr string
  | PTuple "pyval list"
  | PList "pyval list"

fun hashable :: "pyval \<Rightarrow> bool" where
  "hashable PNone = True"
| "hashable (PInt n) = True"
| "hashable (PStr s) = True"
| "hashable (PTuple xs) = list_all hashable xs"
| "hashable (PList xs) = False"

text \<open>
  \<open>**kwargs\<close> is a dict from names to values, held in the order the caller supplied the
  keywords; a dict has every name once.
\<close>

type_synonym kwargs = "(string \<times> pyval) list"

type_synonym cache_key = "pyval list \<times> (string \<times> pyval) list"

text \<open>
  \<^verbatim>\<open>key = (args, tuple(sorted(kwargs.items())))\<close>
  The items are (name, value) tuples; the names of a dict are pairwise different, so
  the comparison of two items is decided by their names (strings, compared
  lexicographically by character code) and never reaches the values.
\<close>

definition make_key :: "pyval list \<Rightarrow> kwargs \<Rightarrow> cache_key" where
  "make_key args kwargs = (args, sort_key fst kwargs)"

text \<open>
  \<open>key in cache\<close> hashes the key: the tuple of positional arguments and the tuple of
  (name, value) tuples, down to every argument value.
\<close>

definition key_hashable :: "cache_key \<Rightarrow> bool" where
  "key_hashable key =
     (list_all hashable (fst key) \<and> list_all (\<lambda>item. hashable (snd item)) (snd key))"

section \<open>Exceptions\<close>

text \<open>
  An exception is either one of Python's own, named by its class, or whatever the
  wrapped function raised, handed on as it is.
\<close>

datatype 'e py_exception = PyExc string | Raised 'e

abbreviation TypeError :: "'e py_exception" where
  "TypeError \<equiv> PyExc ''TypeError''"

abbreviation KeyError :: "'e py_exception" where
  "KeyError \<equiv> PyExc ''KeyError''"

abbreviation ValueError :: "'e py_exception" where
  "ValueError \<equiv> PyExc ''ValueError''"

section \<open>The two dicts of a decorated function\<close>

text \<open>
  A Python dict keeps its keys in insertion order, and \<open>min\<close> walks \<open>usage\<close> in that
  order, so both dicts are association lists: \<open>d[k] = v\<close> is \<open>AList.update k v d\<close>
  (the value changes in place when \<open>k\<close> is there, the pair goes to the end when it is
  not), \<open>k in d\<close> and \<open>d[k]\<close> are \<open>map_of d k\<close>, \<open>len(d)\<close> is \<open>length d\<close>.
\<close>

record 'v lfu =
  max_limit :: int
  cache :: "(cache_key \<times> 'v) list"
  usage :: "(cache_key \<times> int) list"

text \<open>\<open>d.pop(k)\<close>: \<open>None\<close> stands for the KeyError of a missing key.\<close>

definition dict_pop :: "'k \<Rightarrow> ('k \<times> 'a) list \<Rightarrow> ('k \<times> 'a) list option" where
  "dict_pop k d = (if map_of d k = None then None else Some (AList.delete k d))"

text \<open>
  \<^verbatim>\<open>min(usage, key=usage.get)\<close>
  walks the keys in insertion order, each with the counter \<open>usage.get\<close> reads for it,
  and replaces the best key so far only by one whose counter is strictly smaller.
  \<open>None\<close> stands for the ValueError of an empty dict.
\<close>

fun min_from :: "('k \<times> int) \<Rightarrow> ('k \<times> int) list \<Rightarrow> ('k \<times> int)" where
  "min_from best [] = best"
| "min_from best (item # items) =
     min_from (if snd item < snd best then item else best) items"

definition min_usage :: "('k \<times> int) list \<Rightarrow> 'k option" where
  "min_usage u = (case u of [] \<Rightarrow> None | item # items \<Rightarrow> Some (fst (min_from item items)))"

section \<open>The decorator\<close>

text \<open>
  \<open>lfu_cache(max_limit)\<close> returns \<open>decorator\<close>, and \<open>decorator(func)\<close> makes the two empty
  dicts and returns \<open>wrapper\<close>. Neither looks at \<open>max_limit\<close>, and neither raises.
\<close>

definition decorator :: "int \<Rightarrow> 'v lfu" where
  "decorator limit = \<lparr>max_limit = limit, cache = [], usage = []\<rparr>"

definition lfu_cache :: "int \<Rightarrow> 'e py_exception + 'v lfu" where
  "lfu_cache limit = Inr (decorator limit)"

text \<open>
  The wrapped function is a Python callable that reads and changes a world \<open>'w\<close> of its
  own and returns a value or raises. Here it leaves the two dicts alone: it does not
  call the cached function again. The function that does is \<open>wrapper_nested\<close> below.
\<close>

type_synonym ('e, 'v, 'w) func = "pyval list \<Rightarrow> kwargs \<Rightarrow> 'w \<Rightarrow> ('e + 'v) \<times> 'w"

definition wrapper ::
  "('e, 'v, 'w) func \<Rightarrow> pyval list \<Rightarrow> kwargs \<Rightarrow> 'v lfu \<times> 'w
     \<Rightarrow> ('e py_exception + 'v) \<times> 'v lfu \<times> 'w" where
  "wrapper func args kwargs s =
     (case s of (c, w) \<Rightarrow>
        let key = make_key args kwargs in
        if \<not> key_hashable key then (Inl TypeError, c, w)
        else
          (case map_of (cache c) key of
             Some v \<Rightarrow>
               (case map_of (usage c) key of
                  None \<Rightarrow> (Inl KeyError, c, w)
                | Some n \<Rightarrow> (Inr v, c\<lparr>usage := AList.update key (n + 1) (usage c)\<rparr>, w))
           | None \<Rightarrow>
               (case func args kwargs w of
                  (Inl e, w') \<Rightarrow> (Inl (Raised e), c, w')
                | (Inr result, w') \<Rightarrow>
                    if max_limit c \<le> int (length (cache c)) then
                      (case min_usage (usage c) of
                         None \<Rightarrow> (Inl ValueError, c, w')
                       | Some least_used_key \<Rightarrow>
                           (case dict_pop least_used_key (cache c) of
                              None \<Rightarrow> (Inl KeyError, c, w')
                            | Some cache' \<Rightarrow>
                                (Inr result,
                                 c\<lparr>cache := AList.update key result cache',
                                   usage := AList.update key 1
                                     (AList.delete least_used_key (usage c))\<rparr>,
                                 w')))
                    else
                      (Inr result,
                       c\<lparr>cache := AList.update key result (cache c),
                         usage := AList.update key 1 (usage c)\<rparr>,
                       w'))))"

text \<open>A caller that makes one call after the other, whatever each of them answers.\<close>

fun run ::
  "('e, 'v, 'w) func \<Rightarrow> (pyval list \<times> kwargs) list \<Rightarrow> 'v lfu \<times> 'w \<Rightarrow> 'v lfu \<times> 'w" where
  "run func [] s = s"
| "run func (call # calls) s = run func calls (snd (wrapper func (fst call) (snd call) s))"

text \<open>
  A test double: \<open>func\<close> with a log of its invocations beside its world, each entry the
  arguments of one invocation.
\<close>

definition tracing ::
  "('e, 'v, 'w) func \<Rightarrow> ('e, 'v, 'w \<times> (pyval list \<times> kwargs) list) func" where
  "tracing func args kwargs wl =
     (case func args kwargs (fst wl) of (r, w') \<Rightarrow> (r, (w', snd wl @ [(args, kwargs)])))"

text \<open>
  A sample callable for concrete runs,
  \<^verbatim>\<open>def total(*args, **kwargs): return sum(args) + sum(kwargs.values())\<close>
  which raises on an argument that is not an int.
\<close>

fun total_of :: "pyval list \<Rightarrow> int option" where
  "total_of [] = Some 0"
| "total_of (PInt n # vs) = map_option ((+) n) (total_of vs)"
| "total_of (v # vs) = None"

definition total :: "(string, int, unit) func" where
  "total args kwargs w =
     (case total_of (args @ map snd kwargs) of
        Some n \<Rightarrow> (Inr n, w)
      | None \<Rightarrow> (Inl ''unsupported operand'', w))"

section \<open>A wrapped function that calls the cached function again\<close>

text \<open>
  The name of a decorated function is bound to \<open>wrapper\<close>, so a recursive function
  calls \<open>wrapper\<close> from inside \<open>func(*args, **kwargs)\<close>, on the same two dicts. Such a
  function takes the dicts together with its world and gives them back as its nested
  calls have left them; the lines of \<open>wrapper\<close> after the call go on from there.
\<close>

type_synonym ('e, 'v, 'w) nested_func =
  "pyval list \<Rightarrow> kwargs \<Rightarrow> 'v lfu \<times> 'w \<Rightarrow> ('e + 'v) \<times> 'v lfu \<times> 'w"

definition wrapper_nested ::
  "('e, 'v, 'w) nested_func \<Rightarrow> pyval list \<Rightarrow> kwargs \<Rightarrow> 'v lfu \<times> 'w
     \<Rightarrow> ('e py_exception + 'v) \<times> 'v lfu \<times> 'w" where
  "wrapper_nested func args kwargs s =
     (case s of (c, w) \<Rightarrow>
        let key = make_key args kwargs in
        if \<not> key_hashable key then (Inl TypeError, c, w)
        else
          (case map_of (cache c) key of
             Some v \<Rightarrow>
               (case map_of (usage c) key of
                  None \<Rightarrow> (Inl KeyError, c, w)
                | Some n \<Rightarrow> (Inr v, c\<lparr>usage := AList.update key (n + 1) (usage c)\<rparr>, w))
           | None \<Rightarrow>
               (case func args kwargs (c, w) of
                  (Inl e, c', w') \<Rightarrow> (Inl (Raised e), c', w')
                | (Inr result, c', w') \<Rightarrow>
                    if max_limit c' \<le> int (length (cache c')) then
                      (case min_usage (usage c') of
                         None \<Rightarrow> (Inl ValueError, c', w')
                       | Some least_used_key \<Rightarrow>
                           (case dict_pop least_used_key (cache c') of
                              None \<Rightarrow> (Inl KeyError, c', w')
                            | Some cache' \<Rightarrow>
                                (Inr result,
                                 c'\<lparr>cache := AList.update key result cache',
                                    usage := AList.update key 1
                                      (AList.delete least_used_key (usage c'))\<rparr>,
                                 w')))
                    else
                      (Inr result,
                       c'\<lparr>cache := AList.update key result (cache c'),
                          usage := AList.update key 1 (usage c')\<rparr>,
                       w'))))"

text \<open>
  A function that leaves the two dicts alone, as a function of this kind; for it
  \<open>wrapper_nested\<close> is \<open>wrapper\<close>.
\<close>

definition apart :: "('e, 'v, 'w) func \<Rightarrow> ('e, 'v, 'w) nested_func" where
  "apart func args kwargs s =
     (case s of (c, w) \<Rightarrow> (case func args kwargs w of (r, w') \<Rightarrow> (r, c, w')))"

text \<open>
  A recursive cached function for concrete runs:
  \<^verbatim>\<open>
  @lfu_cache(max_limit=2)
  def f(n, /):
      if n > 0:
          f(n - 1)
          raise ValueError
      return 0
  \<close>
  The body calls the cached function \<open>f\<close>; an exception of the nested call goes on
  through the body.
\<close>

definition countdown ::
  "(pyval list \<Rightarrow> kwargs \<Rightarrow> int lfu \<times> unit \<Rightarrow> (string py_exception + int) \<times> int lfu \<times> unit)
     \<Rightarrow> (string, int, unit) nested_func" where
  "countdown f args kwargs s =
     (case (args, kwargs) of
        ([PInt n], []) \<Rightarrow>
          if 0 < n then
            (case f [PInt (n - 1)] [] s of
               (Inl (PyExc name), s') \<Rightarrow> (Inl name, s')
             | (Inl (Raised e), s') \<Rightarrow> (Inl e, s')
             | (Inr v, s') \<Rightarrow> (Inl ''ValueError'', s'))
          else (Inr 0, s)
      | _ \<Rightarrow> (Inl ''TypeError'', s))"

text \<open>
  The cached function itself, as deep as the nesting may go: beyond that depth Python
  raises RecursionError.
\<close>

primrec cached_countdown ::
  "nat \<Rightarrow> pyval list \<Rightarrow> kwargs \<Rightarrow> int lfu \<times> unit
     \<Rightarrow> (string py_exception + int) \<times> int lfu \<times> unit" where
  "cached_countdown 0 = (\<lambda>args kwargs s. (Inl (PyExc ''RecursionError''), s))"
| "cached_countdown (Suc depth) = wrapper_nested (countdown (cached_countdown depth))"

section \<open>Properties of the states the wrapper goes through\<close>

text \<open>
  The two dicts hold the same keys in the same order, each key once.
\<close>

definition keys_inv :: "'v lfu \<Rightarrow> bool" where
  "keys_inv c = (map fst (cache c) = map fst (usage c) \<and> distinct (map fst (cache c)))"

text \<open>Every resident key is one that could be hashed.\<close>

definition keys_hashable :: "'v lfu \<Rightarrow> bool" where
  "keys_hashable c = list_all key_hashable (map fst (cache c))"

text \<open>
  The key stays in the cache from the state \<open>s\<close> through every call of the list.
\<close>

fun stays_resident ::
  "('e, 'v, 'w) func \<Rightarrow> cache_key \<Rightarrow> (pyval list \<times> kwargs) list \<Rightarrow> 'v lfu \<times> 'w \<Rightarrow> bool" where
  "stays_resident func key [] s = (map_of (cache (fst s)) key \<noteq> None)"
| "stays_resident func key (call # calls) s =
     (map_of (cache (fst s)) key \<noteq> None
      \<and> stays_resident func key calls (snd (wrapper func (fst call) (snd call) s)))"

section \<open>The branches of the wrapper\<close>

lemma wrapper_unhashable:
  "\<not> key_hashable (make_key args kwargs) \<Longrightarrow>
   wrapper func args kwargs (c, w) = (Inl TypeError, c, w)"
  by (simp add: wrapper_def Let_def)

lemma wrapper_hit:
  "key_hashable (make_key args kwargs) \<Longrightarrow>
   map_of (cache c) (make_key args kwargs) = Some v \<Longrightarrow>
   map_of (usage c) (make_key args kwargs) = Some n \<Longrightarrow>
   wrapper func args kwargs (c, w) =
     (Inr v, c\<lparr>usage := AList.update (make_key args kwargs) (n + 1) (usage c)\<rparr>, w)"
  by (simp add: wrapper_def Let_def)

lemma wrapper_hit_no_counter:
  "key_hashable (make_key args kwargs) \<Longrightarrow>
   map_of (cache c) (make_key args kwargs) = Some v \<Longrightarrow>
   map_of (usage c) (make_key args kwargs) = None \<Longrightarrow>
   wrapper func args kwargs (c, w) = (Inl KeyError, c, w)"
  by (simp add: wrapper_def Let_def)

lemma wrapper_raise:
  "key_hashable (make_key args kwargs) \<Longrightarrow>
   map_of (cache c) (make_key args kwargs) = None \<Longrightarrow>
   func args kwargs w = (Inl e, w') \<Longrightarrow>
   wrapper func args kwargs (c, w) = (Inl (Raised e), c, w')"
  by (simp add: wrapper_def Let_def)

lemma wrapper_insert:
  "key_hashable (make_key args kwargs) \<Longrightarrow>
   map_of (cache c) (make_key args kwargs) = None \<Longrightarrow>
   func args kwargs w = (Inr result, w') \<Longrightarrow>
   \<not> max_limit c \<le> int (length (cache c)) \<Longrightarrow>
   wrapper func args kwargs (c, w) =
     (Inr result,
      c\<lparr>cache := AList.update (make_key args kwargs) result (cache c),
        usage := AList.update (make_key args kwargs) 1 (usage c)\<rparr>, w')"
  by (simp add: wrapper_def Let_def)

lemma wrapper_min_empty:
  "key_hashable (make_key args kwargs) \<Longrightarrow>
   map_of (cache c) (make_key args kwargs) = None \<Longrightarrow>
   func args kwargs w = (Inr result, w') \<Longrightarrow>
   max_limit c \<le> int (length (cache c)) \<Longrightarrow>
   min_usage (usage c) = None \<Longrightarrow>
   wrapper func args kwargs (c, w) = (Inl ValueError, c, w')"
  by (simp add: wrapper_def Let_def)

lemma wrapper_evict:
  "key_hashable (make_key args kwargs) \<Longrightarrow>
   map_of (cache c) (make_key args kwargs) = None \<Longrightarrow>
   func args kwargs w = (Inr result, w') \<Longrightarrow>
   max_limit c \<le> int (length (cache c)) \<Longrightarrow>
   min_usage (usage c) = Some k \<Longrightarrow>
   map_of (cache c) k \<noteq> None \<Longrightarrow>
   wrapper func args kwargs (c, w) =
     (Inr result,
      c\<lparr>cache := AList.update (make_key args kwargs) result (AList.delete k (cache c)),
        usage := AList.update (make_key args kwargs) 1 (AList.delete k (usage c))\<rparr>, w')"
  by (simp add: wrapper_def Let_def dict_pop_def)

lemma wrapper_pop_fails:
  "key_hashable (make_key args kwargs) \<Longrightarrow>
   map_of (cache c) (make_key args kwargs) = None \<Longrightarrow>
   func args kwargs w = (Inr result, w') \<Longrightarrow>
   max_limit c \<le> int (length (cache c)) \<Longrightarrow>
   min_usage (usage c) = Some k \<Longrightarrow>
   map_of (cache c) k = None \<Longrightarrow>
   wrapper func args kwargs (c, w) = (Inl KeyError, c, w')"
  by (simp add: wrapper_def Let_def dict_pop_def)

subsection \<open>What \<open>min\<close> selects\<close>

lemma min_from_split:
  "\<exists>pre post. best # items = pre @ min_from best items # post
     \<and> (\<forall>x\<in>set pre. snd (min_from best items) < snd x)
     \<and> (\<forall>x\<in>set post. snd (min_from best items) \<le> snd x)"
proof (induction items arbitrary: best)
  case Nil
  show ?case by (rule exI [of _ "[]"], rule exI [of _ "[]"]) simp
next
  case (Cons item items)
  define b where "b = (if snd item < snd best then item else best)"
  define r where "r = min_from b items"
  have r_eq: "min_from best (item # items) = r"
    by (simp add: r_def b_def)
  from Cons.IH [of b] obtain pre post where
    split: "b # items = pre @ r # post" and
    pre: "\<forall>x\<in>set pre. snd r < snd x" and
    post: "\<forall>x\<in>set post. snd r \<le> snd x"
    unfolding r_def by blast
  have r_le_b: "snd r \<le> snd b"
  proof (cases pre)
    case Nil
    with split show ?thesis by simp
  next
    case (Cons p ps)
    with split have "p = b" by simp
    with pre Cons show ?thesis by auto
  qed
  have "\<exists>pre' post'. best # item # items = pre' @ r # post'
     \<and> (\<forall>x\<in>set pre'. snd r < snd x) \<and> (\<forall>x\<in>set post'. snd r \<le> snd x)"
  proof (cases "snd item < snd best")
    case True
    then have b: "b = item" by (simp add: b_def)
    have "best # item # items = (best # pre) @ r # post"
      using split b by simp
    moreover have "snd r < snd best"
      using r_le_b True b by simp
    ultimately show ?thesis
      using pre post by (intro exI [of _ "best # pre"] exI [of _ post]) simp
  next
    case False
    then have b: "b = best" by (simp add: b_def)
    show ?thesis
    proof (cases pre)
      case Nil
      with split b have r: "r = best" and items: "post = items" by simp_all
      have "\<forall>x\<in>set (item # items). snd r \<le> snd x"
        using post items r False by auto
      then show ?thesis
        using r by (intro exI [of _ "[]"] exI [of _ "item # items"]) simp
    next
      case (Cons p ps)
      with split b have p: "p = best" and rest: "items = ps @ r # post" by simp_all
      have "snd r < snd best" using pre Cons p by simp
      then have "snd r < snd item" using False by simp
      moreover have "best # item # items = (best # item # ps) @ r # post"
        using rest by simp
      ultimately show ?thesis
        using pre post Cons p \<open>snd r < snd best\<close>
        by (intro exI [of _ "best # item # ps"] exI [of _ post]) simp
    qed
  qed
  then show ?case unfolding r_eq .
qed

lemma min_usage_None: "min_usage u = None \<longleftrightarrow> u = []"
  by (cases u) (simp_all add: min_usage_def)

lemma min_usage_split:
  assumes "min_usage u = Some k"
  shows "\<exists>n pre post. u = pre @ (k, n) # post
     \<and> (\<forall>x\<in>set pre. n < snd x) \<and> (\<forall>x\<in>set post. n \<le> snd x)"
proof (cases u)
  case Nil
  with assms show ?thesis by (simp add: min_usage_def)
next
  case (Cons item items)
  with assms have k: "k = fst (min_from item items)" by (simp add: min_usage_def)
  from min_from_split [of item items] obtain pre post where
    "item # items = pre @ min_from item items # post"
    "\<forall>x\<in>set pre. snd (min_from item items) < snd x"
    "\<forall>x\<in>set post. snd (min_from item items) \<le> snd x"
    by blast
  with Cons k show ?thesis
    by (intro exI [of _ "snd (min_from item items)"] exI [of _ pre] exI [of _ post]) simp
qed

lemma min_usage_in_keys: "min_usage u = Some k \<Longrightarrow> k \<in> set (map fst u)"
  using min_usage_split [of u k] by auto

section \<open>The invariant of the two dicts\<close>

lemma update_fresh: "map_of al k = None \<Longrightarrow> AList.update k v al = al @ [(k, v)]"
  by (induction al) (auto split: if_splits)

lemma delete_split:
  "distinct (map fst al) \<Longrightarrow> al = pre @ (k, v) # post \<Longrightarrow> AList.delete k al = pre @ post"
proof -
  assume d: "distinct (map fst al)" and al: "al = pre @ (k, v) # post"
  have app: "AList.delete k (xs @ ys) = AList.delete k xs @ AList.delete k ys"
    for xs ys :: "('a \<times> 'b) list"
    by (simp add: AList.delete_eq)
  have "k \<notin> fst ` set pre" and "k \<notin> fst ` set post"
    using d al by auto
  then have "AList.delete k pre = pre" and "AList.delete k post = post"
    by simp_all
  then show ?thesis
    unfolding al app by simp
qed

lemma length_delete:
  "distinct (map fst al) \<Longrightarrow> map_of al k \<noteq> None \<Longrightarrow>
   Suc (length (AList.delete k al)) = length al"
proof -
  assume d: "distinct (map fst al)" and k: "map_of al k \<noteq> None"
  then obtain v where "(k, v) \<in> set al" by (auto dest: map_of_SomeD)
  then obtain pre post where al: "al = pre @ (k, v) # post"
    by (auto simp: in_set_conv_decomp)
  from delete_split [OF d al] al show ?thesis by simp
qed

lemma map_of_keys_eq:
  "map fst al = map fst bl \<Longrightarrow> (map_of al k = None) = (map_of bl k = None)"
  by (metis map_of_eq_None_iff set_map)

lemma wrapper_max_limit [simp]:
  "max_limit (fst (snd (wrapper func args kwargs s))) = max_limit (fst s)"
  by (cases s)
     (auto simp: wrapper_def Let_def split: option.splits sum.splits prod.splits)

lemma keys_update:
  "map fst al = map fst bl \<Longrightarrow>
   map fst (AList.update k v al) = map fst (AList.update k v' bl)"
proof -
  assume keys: "map fst al = map fst bl"
  then have "set (map fst al) = set (map fst bl)" by simp
  with keys show ?thesis by (simp only: AList.update_keys)
qed

lemma keys_delete:
  "map fst al = map fst bl \<Longrightarrow> map fst (AList.delete k al) = map fst (AList.delete k bl)"
  by (simp only: AList.delete_keys)

lemma keys_update_present:
  "map_of al k \<noteq> None \<Longrightarrow> map fst (AList.update k v al) = map fst al"
  by (simp add: AList.update_keys map_of_eq_None_iff)

lemma length_update_le: "length (AList.update k v al) \<le> Suc (length al)"
  by (induction al) auto

lemma keys_invI:
  "map fst (cache c) = map fst (usage c) \<Longrightarrow> distinct (map fst (cache c)) \<Longrightarrow> keys_inv c"
  by (simp add: keys_inv_def)

lemma keys_invD:
  assumes "keys_inv c"
  shows "map fst (cache c) = map fst (usage c)" and "distinct (map fst (cache c))"
    and "distinct (map fst (usage c))"
  using assms unfolding keys_inv_def by (blast, blast, metis)

lemma keys_inv_insert:
  assumes "keys_inv c"
  shows "keys_inv (c\<lparr>cache := AList.update key result (cache c),
                     usage := AList.update key n (usage c)\<rparr>)"
proof (rule keys_invI)
  show "map fst (cache (c\<lparr>cache := AList.update key result (cache c),
                     usage := AList.update key n (usage c)\<rparr>)) =
        map fst (usage (c\<lparr>cache := AList.update key result (cache c),
                     usage := AList.update key n (usage c)\<rparr>))"
    using keys_update [OF keys_invD(1) [OF assms]] by simp
  show "distinct (map fst (cache (c\<lparr>cache := AList.update key result (cache c),
                     usage := AList.update key n (usage c)\<rparr>)))"
    using AList.distinct_update [OF keys_invD(2) [OF assms]] by simp
qed

lemma keys_inv_evict:
  assumes "keys_inv c"
  shows "keys_inv (c\<lparr>cache := AList.update key result (AList.delete k (cache c)),
                     usage := AList.update key n (AList.delete k (usage c))\<rparr>)"
proof (rule keys_invI)
  show "map fst (cache (c\<lparr>cache := AList.update key result (AList.delete k (cache c)),
                     usage := AList.update key n (AList.delete k (usage c))\<rparr>)) =
        map fst (usage (c\<lparr>cache := AList.update key result (AList.delete k (cache c)),
                     usage := AList.update key n (AList.delete k (usage c))\<rparr>))"
    using keys_update [OF keys_delete [OF keys_invD(1) [OF assms]]] by simp
  show "distinct (map fst (cache (c\<lparr>cache := AList.update key result (AList.delete k (cache c)),
                     usage := AList.update key n (AList.delete k (usage c))\<rparr>)))"
    using AList.distinct_update [OF AList.distinct_delete [OF keys_invD(2) [OF assms]]]
    by simp
qed

lemma keys_inv_hit:
  assumes "keys_inv c" and "map_of (usage c) key \<noteq> None"
  shows "keys_inv (c\<lparr>usage := AList.update key n (usage c)\<rparr>)"
proof (rule keys_invI)
  show "map fst (cache (c\<lparr>usage := AList.update key n (usage c)\<rparr>)) =
        map fst (usage (c\<lparr>usage := AList.update key n (usage c)\<rparr>))"
    using keys_invD(1) [OF assms(1)] keys_update_present [OF assms(2)] by simp
  show "distinct (map fst (cache (c\<lparr>usage := AList.update key n (usage c)\<rparr>)))"
    using keys_invD(2) [OF assms(1)] by simp
qed

lemma wrapper_keys_inv:
  assumes "keys_inv (fst s)"
  shows "keys_inv (fst (snd (wrapper func args kwargs s)))"
proof -
  obtain c w where s: "s = (c, w)" by (cases s)
  have c: "keys_inv c" using assms s by simp
  show ?thesis
    unfolding s
    by (auto simp: wrapper_def Let_def dict_pop_def c keys_inv_insert [OF c]
        keys_inv_evict [OF c] keys_inv_hit [OF c]
        split: option.splits sum.splits prod.splits)
qed

lemma wrapper_capacity:
  assumes "keys_inv (fst s)" and "0 < max_limit (fst s)"
    and "int (length (cache (fst s))) \<le> max_limit (fst s)"
  shows "int (length (cache (fst (snd (wrapper func args kwargs s))))) \<le> max_limit (fst s)"
proof -
  obtain c w where s: "s = (c, w)" by (cases s)
  have dist: "distinct (map fst (cache c))"
    using assms(1) unfolding s keys_inv_def fst_conv by blast
  have bound: "int (length (cache c)) \<le> max_limit c"
    using assms(3) s by simp
  have del: "int (length (AList.update key result (AList.delete k (cache c)))) \<le> max_limit c"
    if "map_of (cache c) k \<noteq> None" for key result k
    using length_delete [OF dist that] length_update_le [of key result "AList.delete k (cache c)"]
      bound by simp
  have ins: "int (length (AList.update key result (cache c))) \<le> max_limit c"
    if "\<not> max_limit c \<le> int (length (cache c))" for key result
    using length_update_le [of key result "cache c"] that by simp
  show ?thesis
    unfolding s
    by (auto simp: wrapper_def Let_def dict_pop_def bound del ins
        split: option.splits sum.splits prod.splits)
qed

lemma run_max_limit [simp]: "max_limit (fst (run func calls s)) = max_limit (fst s)"
  by (induction calls arbitrary: s) simp_all

lemma run_keys_inv: "keys_inv (fst s) \<Longrightarrow> keys_inv (fst (run func calls s))"
  by (induction calls arbitrary: s) (simp_all add: wrapper_keys_inv)

lemma run_capacity:
  "keys_inv (fst s) \<Longrightarrow> 0 < max_limit (fst s) \<Longrightarrow>
   int (length (cache (fst s))) \<le> max_limit (fst s) \<Longrightarrow>
   int (length (cache (fst (run func calls s)))) \<le> max_limit (fst s)"
proof (induction calls arbitrary: s)
  case Nil
  then show ?case by simp
next
  case (Cons call calls)
  let ?s = "snd (wrapper func (fst call) (snd call) s)"
  have "int (length (cache (fst (run func calls ?s)))) \<le> max_limit (fst ?s)"
    using Cons.prems
    by (intro Cons.IH) (simp_all add: wrapper_keys_inv wrapper_capacity)
  then show ?case by simp
qed

lemma decorator_keys_inv [simp]: "keys_inv (decorator limit)"
  by (simp add: keys_inv_def decorator_def)

section \<open>Evaluation at concrete inputs, and the empty cache of a non-positive limit\<close>

lemmas eval_defs =
  wrapper_def Let_def make_key_def key_hashable_def decorator_def lfu_cache_def
  min_usage_def dict_pop_def tracing_def total_def

lemma run_empty_stays:
  assumes "limit \<le> 0"
  shows "fst (snd (wrapper func args kwargs (decorator limit, w))) = decorator limit"
  using assms
  by (auto simp: wrapper_def Let_def decorator_def min_usage_def
      split: option.splits sum.splits prod.splits)

lemma run_degenerate:
  "limit \<le> 0 \<Longrightarrow> fst s = decorator limit \<Longrightarrow> fst (run func calls s) = decorator limit"
proof (induction calls arbitrary: s)
  case Nil
  then show ?case by simp
next
  case (Cons call calls)
  obtain w where s: "s = (decorator limit, w)"
    using Cons.prems(2) by (cases s) simp
  have "fst (snd (wrapper func (fst call) (snd call) s)) = decorator limit"
    unfolding s using Cons.prems(1) by (rule run_empty_stays)
  with Cons.IH [OF Cons.prems(1)] show ?case by simp
qed

section \<open>The states reached from the empty dicts\<close>

subsection \<open>Resident keys are hashable\<close>

lemma keys_hashable_update:
  "key_hashable key \<Longrightarrow> list_all key_hashable (map fst al) \<Longrightarrow>
   list_all key_hashable (map fst (AList.update key result al))"
  by (induction al) auto

lemma keys_hashable_delete:
  "list_all key_hashable (map fst al) \<Longrightarrow>
   list_all key_hashable (map fst (AList.delete k al))"
  by (induction al) auto

lemma wrapper_keys_hashable:
  assumes "keys_hashable (fst s)"
  shows "keys_hashable (fst (snd (wrapper func args kwargs s)))"
proof -
  obtain c w where s: "s = (c, w)" by (cases s)
  have old: "list_all key_hashable (map fst (cache c))"
    using assms s by (simp add: keys_hashable_def)
  show ?thesis
  proof (cases "key_hashable (make_key args kwargs)")
    case False
    then show ?thesis
      using assms s by (simp add: wrapper_unhashable)
  next
    case True
    have ins: "list_all key_hashable
        (map fst (AList.update (make_key args kwargs) result (cache c)))" for result
      using True old by (rule keys_hashable_update)
    have del: "list_all key_hashable
        (map fst (AList.update (make_key args kwargs) result (AList.delete k (cache c))))"
      for result k
      using True keys_hashable_delete [OF old] by (rule keys_hashable_update)
    show ?thesis
      unfolding s keys_hashable_def wrapper_def dict_pop_def
      using old ins del
      by (simp add: Let_def split: option.splits sum.splits prod.splits)
  qed
qed

lemma run_keys_hashable:
  "keys_hashable (fst s) \<Longrightarrow> keys_hashable (fst (run func calls s))"
proof (induction calls arbitrary: s)
  case Nil
  then show ?case by simp
next
  case (Cons call calls)
  have "keys_hashable (fst (snd (wrapper func (fst call) (snd call) s)))"
    using Cons.prems by (rule wrapper_keys_hashable)
  then have "keys_hashable (fst (run func calls (snd (wrapper func (fst call) (snd call) s))))"
    by (rule Cons.IH)
  then show ?case by simp
qed

lemma resident_hashable:
  assumes "run func calls (decorator limit, w0) = (c, w)" and "map_of (cache c) key \<noteq> None"
  shows "key_hashable key"
proof -
  have "keys_hashable (fst (decorator limit, w0))"
    by (simp add: keys_hashable_def decorator_def)
  then have "keys_hashable (fst (run func calls (decorator limit, w0)))"
    by (rule run_keys_hashable)
  then have "list_all key_hashable (map fst (cache c))"
    using assms(1) by (simp add: keys_hashable_def)
  moreover have "key \<in> set (map fst (cache c))"
    using assms(2) by (simp add: map_of_eq_None_iff)
  ultimately show ?thesis
    unfolding list_all_iff by blast
qed

lemma reached_keys_inv:
  assumes "run func calls (decorator limit, w0) = (c, w)"
  shows "keys_inv c" and "max_limit c = limit"
proof -
  have "keys_inv (fst (run func calls (decorator limit, w0)))"
    by (rule run_keys_inv) simp
  then show "keys_inv c" using assms by simp
  have "max_limit (fst (run func calls (decorator limit, w0))) = limit"
    by (simp add: decorator_def)
  then show "max_limit c = limit" using assms by simp
qed

lemma reached_counter:
  assumes "run func calls (decorator limit, w0) = (c, w)"
  shows "(map_of (usage c) key = None) = (map_of (cache c) key = None)"
  using map_of_keys_eq [OF keys_invD(1) [OF reached_keys_inv(1) [OF assms]], of key] by simp

section \<open>One call, branch by branch\<close>

lemma wrapper_cases [case_names unhashable hit no_counter raise insert min_empty evict pop_fails]:
  fixes func :: "('e, 'v, 'w) func"
  obtains
    "\<not> key_hashable (make_key args kwargs)"
      "wrapper func args kwargs (c, w) = (Inl TypeError, c, w)"
  | v n where "key_hashable (make_key args kwargs)"
      "map_of (cache c) (make_key args kwargs) = Some v"
      "map_of (usage c) (make_key args kwargs) = Some n"
      "wrapper func args kwargs (c, w) =
         (Inr v, c\<lparr>usage := AList.update (make_key args kwargs) (n + 1) (usage c)\<rparr>, w)"
  | v where "key_hashable (make_key args kwargs)"
      "map_of (cache c) (make_key args kwargs) = Some v"
      "map_of (usage c) (make_key args kwargs) = None"
      "wrapper func args kwargs (c, w) = (Inl KeyError, c, w)"
  | e w' where "key_hashable (make_key args kwargs)"
      "map_of (cache c) (make_key args kwargs) = None"
      "func args kwargs w = (Inl e, w')"
      "wrapper func args kwargs (c, w) = (Inl (Raised e), c, w')"
  | result w' where "key_hashable (make_key args kwargs)"
      "map_of (cache c) (make_key args kwargs) = None"
      "func args kwargs w = (Inr result, w')"
      "\<not> max_limit c \<le> int (length (cache c))"
      "wrapper func args kwargs (c, w) =
         (Inr result,
          c\<lparr>cache := AList.update (make_key args kwargs) result (cache c),
            usage := AList.update (make_key args kwargs) 1 (usage c)\<rparr>, w')"
  | result w' where "key_hashable (make_key args kwargs)"
      "map_of (cache c) (make_key args kwargs) = None"
      "func args kwargs w = (Inr result, w')"
      "max_limit c \<le> int (length (cache c))"
      "usage c = []"
      "wrapper func args kwargs (c, w) = (Inl ValueError, c, w')"
  | result w' k where "key_hashable (make_key args kwargs)"
      "map_of (cache c) (make_key args kwargs) = None"
      "func args kwargs w = (Inr result, w')"
      "max_limit c \<le> int (length (cache c))"
      "min_usage (usage c) = Some k"
      "map_of (cache c) k \<noteq> None"
      "wrapper func args kwargs (c, w) =
         (Inr result,
          c\<lparr>cache := AList.update (make_key args kwargs) result (AList.delete k (cache c)),
            usage := AList.update (make_key args kwargs) 1 (AList.delete k (usage c))\<rparr>, w')"
  | result w' k where "key_hashable (make_key args kwargs)"
      "map_of (cache c) (make_key args kwargs) = None"
      "func args kwargs w = (Inr result, w')"
      "max_limit c \<le> int (length (cache c))"
      "min_usage (usage c) = Some k"
      "map_of (cache c) k = None"
      "wrapper func args kwargs (c, w) = (Inl KeyError, c, w')"
proof (cases "key_hashable (make_key args kwargs)")
  case False
  show ?thesis
    using that(1) [OF False wrapper_unhashable [OF False]] .
next
  case hash: True
  show ?thesis
  proof (cases "map_of (cache c) (make_key args kwargs)")
    case (Some v)
    show ?thesis
    proof (cases "map_of (usage c) (make_key args kwargs)")
      case None
      show ?thesis
        using that(3) [OF hash Some None wrapper_hit_no_counter [OF hash Some None]] .
    next
      case n: (Some n)
      show ?thesis
        using that(2) [OF hash Some n wrapper_hit [OF hash Some n]] .
    qed
  next
    case miss: None
    obtain r w' where f: "func args kwargs w = (r, w')"
      by (cases "func args kwargs w")
    show ?thesis
    proof (cases r)
      case (Inl e)
      with f have fe: "func args kwargs w = (Inl e, w')" by simp
      show ?thesis
        using that(4) [OF hash miss fe
            wrapper_raise [where func = func and args = args and kwargs = kwargs and w = w,
              OF hash miss fe]] .
    next
      case (Inr result)
      with f have fr: "func args kwargs w = (Inr result, w')" by simp
      show ?thesis
      proof (cases "max_limit c \<le> int (length (cache c))")
        case False
        show ?thesis
          using that(5) [OF hash miss fr False
              wrapper_insert [where func = func and args = args and kwargs = kwargs and w = w,
                OF hash miss fr False]] .
      next
        case full: True
        show ?thesis
        proof (cases "min_usage (usage c)")
          case None
          then have empty: "usage c = []" by (simp add: min_usage_None)
          show ?thesis
            using that(6) [OF hash miss fr full empty
                wrapper_min_empty [where func = func and args = args and kwargs = kwargs
                  and w = w, OF hash miss fr full None]] .
        next
          case k: (Some k)
          show ?thesis
          proof (cases "map_of (cache c) k = None")
            case True
            show ?thesis
              using that(8) [OF hash miss fr full k True
                  wrapper_pop_fails [where func = func and args = args and kwargs = kwargs
                    and w = w, OF hash miss fr full k True]] .
          next
            case False
            show ?thesis
              using that(7) [OF hash miss fr full k False
                  wrapper_evict [where func = func and args = args and kwargs = kwargs
                    and w = w, OF hash miss fr full k False]] .
          qed
        qed
      qed
    qed
  qed
qed

subsection \<open>Eviction\<close>

lemma evict_at_capacity:
  assumes reach: "run func calls (decorator limit, w0) = (c, w)"
    and pos: "0 < limit"
    and full: "limit \<le> int (length (cache c))"
    and hash: "key_hashable (make_key args kwargs)"
    and miss: "map_of (cache c) (make_key args kwargs) = None"
    and ret: "func args kwargs w = (Inr result, w')"
  shows "\<exists>k n pre post.
      usage c = pre @ (k, n) # post
      \<and> (\<forall>x\<in>set pre. n < snd x) \<and> (\<forall>x\<in>set post. n \<le> snd x)
      \<and> map_of (cache c) k \<noteq> None
      \<and> wrapper func args kwargs (c, w) =
          (Inr result,
           c\<lparr>cache := AList.delete k (cache c) @ [(make_key args kwargs, result)],
             usage := pre @ post @ [(make_key args kwargs, 1)]\<rparr>, w')"
proof -
  let ?key = "make_key args kwargs"
  have inv: "keys_inv c" and lim: "max_limit c = limit"
    using reached_keys_inv [OF reach] by simp_all
  have keys: "map fst (cache c) = map fst (usage c)"
    using inv by (rule keys_invD(1))
  then have "length (map fst (cache c)) = length (map fst (usage c))"
    by (rule arg_cong)
  then have "usage c \<noteq> []"
    using pos full by auto
  then obtain k where k: "min_usage (usage c) = Some k"
    using min_usage_None [of "usage c"] by (cases "min_usage (usage c)") auto
  from min_usage_split [OF k] obtain n pre post where
    split: "usage c = pre @ (k, n) # post" and
    pre: "\<forall>x\<in>set pre. n < snd x" and post: "\<forall>x\<in>set post. n \<le> snd x"
    by blast
  have "map_of (usage c) k \<noteq> None"
    using split by (simp add: map_of_eq_None_iff)
  then have resident: "map_of (cache c) k \<noteq> None"
    using map_of_keys_eq [OF keys, of k] by simp
  have miss_usage: "map_of (usage c) ?key = None"
    using map_of_keys_eq [OF keys, of ?key] miss by simp
  have del_usage: "AList.delete k (usage c) = pre @ post"
    using keys_invD(3) [OF inv] split by (rule delete_split)
  have "map_of (AList.delete k (cache c)) ?key = None"
    using miss by (simp add: AList.delete_conv')
  then have new_cache: "AList.update ?key result (AList.delete k (cache c))
      = AList.delete k (cache c) @ [(?key, result)]"
    by (rule update_fresh)
  have "map_of (AList.delete k (usage c)) ?key = None"
    using miss_usage by (simp add: AList.delete_conv')
  then have new_usage: "AList.update ?key 1 (AList.delete k (usage c)) = pre @ post @ [(?key, 1)]"
    using update_fresh [of "AList.delete k (usage c)" ?key 1] del_usage by simp
  have full': "max_limit c \<le> int (length (cache c))"
    using full lim by simp
  have "wrapper func args kwargs (c, w) =
      (Inr result,
       c\<lparr>cache := AList.delete k (cache c) @ [(?key, result)],
         usage := pre @ post @ [(?key, 1)]\<rparr>, w')"
    using wrapper_evict [where func = func and args = args and kwargs = kwargs and w = w,
        OF hash miss ret full' k resident] new_cache new_usage
    by simp
  with split pre post resident show ?thesis by blast
qed

lemma hit_keeps_order:
  assumes "map_of (cache c) (make_key args kwargs) \<noteq> None"
  shows "map fst (usage (fst (snd (wrapper func args kwargs (c, w))))) = map fst (usage c)
    \<and> cache (fst (snd (wrapper func args kwargs (c, w)))) = cache c"
proof (cases "key_hashable (make_key args kwargs)")
  case False
  then show ?thesis by (simp add: wrapper_unhashable)
next
  case True
  from assms obtain v where v: "map_of (cache c) (make_key args kwargs) = Some v"
    by blast
  show ?thesis
  proof (cases "map_of (usage c) (make_key args kwargs)")
    case None
    then show ?thesis
      using wrapper_hit_no_counter [OF True v None, of func w] by simp
  next
    case (Some n)
    then show ?thesis
      using wrapper_hit [OF True v Some, of func w] by (simp add: keys_update_present)
  qed
qed


subsection \<open>Counters\<close>

lemma miss_inserts:
  assumes reach: "run func calls (decorator limit, w0) = (c, w)"
    and pos: "0 < limit"
    and hash: "key_hashable (make_key args kwargs)"
    and miss: "map_of (cache c) (make_key args kwargs) = None"
    and ret: "func args kwargs w = (Inr result, w')"
  shows "\<exists>c'. wrapper func args kwargs (c, w) = (Inr result, c', w')
    \<and> map_of (cache c') (make_key args kwargs) = Some result
    \<and> map_of (usage c') (make_key args kwargs) = Some 1"
proof (cases "limit \<le> int (length (cache c))")
  case True
  from evict_at_capacity [OF reach pos True hash miss ret] obtain k n pre post where
    split: "usage c = pre @ (k, n) # post" and
    w: "wrapper func args kwargs (c, w) =
          (Inr result,
           c\<lparr>cache := AList.delete k (cache c) @ [(make_key args kwargs, result)],
             usage := pre @ post @ [(make_key args kwargs, 1)]\<rparr>, w')"
    by blast
  have "map_of (usage c) (make_key args kwargs) = None"
    using reached_counter [OF reach] miss by simp
  then have "make_key args kwargs \<notin> fst ` set (usage c)"
    by (simp add: map_of_eq_None_iff)
  then have "make_key args kwargs \<notin> fst ` set pre"
    and "make_key args kwargs \<notin> fst ` set post"
    unfolding split by auto
  then have "map_of pre (make_key args kwargs) = None"
    and "map_of post (make_key args kwargs) = None"
    by (simp_all add: map_of_eq_None_iff)
  then have u: "map_of (pre @ post @ [(make_key args kwargs, 1)]) (make_key args kwargs) = Some 1"
    by (simp add: map_add_def)
  have "map_of (AList.delete k (cache c)) (make_key args kwargs) = None"
    using miss by (simp add: AList.delete_conv')
  then have "map_of (AList.delete k (cache c) @ [(make_key args kwargs, result)])
      (make_key args kwargs) = Some result"
    by (simp add: map_add_def)
  with w u show ?thesis by simp
next
  case False
  then have "\<not> max_limit c \<le> int (length (cache c))"
    using reached_keys_inv(2) [OF reach] by simp
  from wrapper_insert [where func = func and args = args and kwargs = kwargs and w = w,
      OF hash miss ret this]
  show ?thesis
    by (simp add: AList.update_conv')
qed

lemma hit_counts:
  assumes reach: "run func calls (decorator limit, w0) = (c, w)"
    and hit: "map_of (cache c) (make_key args kwargs) = Some v"
  shows "\<exists>n. map_of (usage c) (make_key args kwargs) = Some n
    \<and> wrapper func args kwargs (c, w) =
        (Inr v, c\<lparr>usage := AList.update (make_key args kwargs) (n + 1) (usage c)\<rparr>, w)
    \<and> map_of (usage (fst (snd (wrapper func args kwargs (c, w))))) (make_key args kwargs)
        = Some (n + 1)"
proof -
  have hash: "key_hashable (make_key args kwargs)"
    using reach by (rule resident_hashable) (simp add: hit)
  have "map_of (usage c) (make_key args kwargs) \<noteq> None"
    using reached_counter [OF reach, of "make_key args kwargs"] hit by simp
  then obtain n where n: "map_of (usage c) (make_key args kwargs) = Some n"
    by blast
  from wrapper_hit [OF hash hit n, of func w] n show ?thesis
    by (simp add: AList.update_conv')
qed

lemma other_counter:
  assumes other: "make_key args kwargs \<noteq> k"
    and still: "map_of (cache (fst (snd (wrapper func args kwargs (c, w))))) k \<noteq> None"
  shows "map_of (usage (fst (snd (wrapper func args kwargs (c, w))))) k = map_of (usage c) k
    \<and> map_of (cache (fst (snd (wrapper func args kwargs (c, w))))) k = map_of (cache c) k"
proof (cases rule: wrapper_cases [where args = args and kwargs = kwargs and c = c
      and func = func and w = w])
  case (hit v n)
  then show ?thesis using other by (simp add: AList.update_conv')
next
  case (insert result w')
  then show ?thesis using other by (simp add: AList.update_conv')
next
  case (evict result w' lk)
  have "map_of (AList.delete lk (cache c)) k \<noteq> None"
    using still other evict(7) by (simp add: AList.update_conv')
  then have "lk \<noteq> k"
    by (auto simp: AList.delete_conv')
  then show ?thesis
    using other evict(7) by (simp add: AList.update_conv' AList.delete_conv')
qed simp_all

subsection \<open>The order of the keywords\<close>

lemma sort_key_names:
  assumes d1: "distinct (map fst kw1)" and d2: "distinct (map fst kw2)"
    and same: "set kw1 = set kw2"
  shows "sort_key fst kw1 = sort_key fst kw2"
proof (rule map_sorted_distinct_set_unique [where f = fst])
  have inj: "inj_on fst (set kw1)"
    using d1 by (simp add: distinct_map)
  show "inj_on fst (set (sort_key fst kw1) \<union> set (sort_key fst kw2))"
    using inj same by simp
  show "sorted (map fst (sort_key fst kw1))" and "sorted (map fst (sort_key fst kw2))"
    by simp_all
  show "distinct (map fst (sort_key fst kw1))"
    using d1 by (simp add: distinct_map)
  show "distinct (map fst (sort_key fst kw2))"
    using d2 by (simp add: distinct_map)
  show "set (sort_key fst kw1) = set (sort_key fst kw2)"
    using same by simp
qed

subsection \<open>The call after a call that returned\<close>

lemma second_call:
  assumes first: "wrapper func args kwargs (c, w) = (Inr v, c1, w1)"
    and same: "make_key args' kwargs' = make_key args kwargs"
  shows "\<exists>n. map_of (usage c1) (make_key args kwargs) = Some n
    \<and> wrapper func args' kwargs' (c1, w1) =
        (Inr v, c1\<lparr>usage := AList.update (make_key args kwargs) (n + 1) (usage c1)\<rparr>, w1)"
proof -
  have after: "key_hashable (make_key args kwargs)
      \<and> map_of (cache c1) (make_key args kwargs) = Some v
      \<and> map_of (usage c1) (make_key args kwargs) \<noteq> None"
  proof (cases rule: wrapper_cases [where args = args and kwargs = kwargs and c = c
        and func = func and w = w])
    case (hit v' n)
    with first show ?thesis by (auto simp: AList.update_conv')
  next
    case (insert result w')
    with first show ?thesis by (auto simp: AList.update_conv')
  next
    case (evict result w' k)
    with first show ?thesis by (auto simp: AList.update_conv')
  qed (use first in simp_all)
  then obtain n where n: "map_of (usage c1) (make_key args kwargs) = Some n"
    by blast
  have "wrapper func args' kwargs' (c1, w1) =
      (Inr v, c1\<lparr>usage := AList.update (make_key args' kwargs') (n + 1) (usage c1)\<rparr>, w1)"
    using after n by (intro wrapper_hit) (simp_all add: same)
  with n same show ?thesis by simp
qed

subsection \<open>Calls between two calls for one key\<close>

lemma run_append: "run func (xs @ ys) s = run func ys (run func xs s)"
  by (induction xs arbitrary: s) simp_all

lemma stays_resident_now:
  "stays_resident func key calls s \<Longrightarrow> map_of (cache (fst s)) key \<noteq> None"
  by (cases calls) simp_all

lemma step_keeps_value:
  assumes v: "map_of (cache c) key = Some v"
    and still: "map_of (cache (fst (snd (wrapper func args kwargs (c, w))))) key \<noteq> None"
  shows "map_of (cache (fst (snd (wrapper func args kwargs (c, w))))) key = Some v"
proof (cases "make_key args kwargs = key")
  case True
  then have "map_of (cache c) (make_key args kwargs) \<noteq> None"
    using v by simp
  from hit_keeps_order [OF this, of func w] v show ?thesis by simp
next
  case False
  from other_counter [OF False still] v show ?thesis by simp
qed

lemma step_keeps_log:
  assumes resident: "map_of (cache c) key \<noteq> None"
  shows "filter (\<lambda>call. make_key (fst call) (snd call) = key)
      (snd (snd (snd (wrapper (tracing func) args kwargs (c, (w, log))))))
    = filter (\<lambda>call. make_key (fst call) (snd call) = key) log"
proof -
  have other: "make_key args kwargs \<noteq> key"
    if "map_of (cache c) (make_key args kwargs) = None"
    using that resident by auto
  have logged: "snd w' = log @ [(args, kwargs)]"
    if "tracing func args kwargs (w, log) = (r, w')" for r w'
    using that by (auto simp: tracing_def split: prod.splits)
  show ?thesis
  proof (cases rule: wrapper_cases [where args = args and kwargs = kwargs and c = c
        and func = "tracing func" and w = "(w, log)"])
    case (raise e w')
    then show ?thesis using other logged by simp
  next
    case (insert result w')
    then show ?thesis using other logged by simp
  next
    case (min_empty result w')
    then show ?thesis using other logged by simp
  next
    case (evict result w' k)
    then show ?thesis using other logged by simp
  next
    case (pop_fails result w' k)
    then show ?thesis using other logged by simp
  qed simp_all
qed

lemma resident_run:
  assumes "stays_resident (tracing func) key mid s"
    and "map_of (cache (fst s)) key = Some v"
  shows "map_of (cache (fst (run (tracing func) mid s))) key = Some v
    \<and> filter (\<lambda>call. make_key (fst call) (snd call) = key) (snd (snd (run (tracing func) mid s)))
      = filter (\<lambda>call. make_key (fst call) (snd call) = key) (snd (snd s))"
  using assms
proof (induction mid arbitrary: s)
  case Nil
  then show ?case by simp
next
  case (Cons call mid)
  obtain c w log where s: "s = (c, (w, log))"
    by (cases s) auto
  let ?s' = "snd (wrapper (tracing func) (fst call) (snd call) (c, (w, log)))"
  have v: "map_of (cache c) key = Some v"
    using Cons.prems(2) s by simp
  have stays: "stays_resident (tracing func) key mid ?s'"
    using Cons.prems(1) s by simp
  then have "map_of (cache (fst ?s')) key \<noteq> None"
    by (rule stays_resident_now)
  then have v': "map_of (cache (fst ?s')) key = Some v"
    using step_keeps_value [OF v, of "tracing func" "fst call" "snd call" "(w, log)"] by simp
  have "filter (\<lambda>call. make_key (fst call) (snd call) = key) (snd (snd ?s'))
      = filter (\<lambda>call. make_key (fst call) (snd call) = key) log"
    using step_keeps_log [of c key func "fst call" "snd call" w log] v by simp
  with Cons.IH [OF stays v'] show ?case
    unfolding s by simp
qed

lemma first_miss:
  assumes first: "wrapper (tracing func) args kwargs (c, (w, log)) = (Inr v, s1)"
    and miss: "map_of (cache c) (make_key args kwargs) = None"
  shows "map_of (cache (fst s1)) (make_key args kwargs) = Some v
    \<and> snd (snd s1) = log @ [(args, kwargs)]"
proof -
  have logged: "snd w' = log @ [(args, kwargs)]"
    if "tracing func args kwargs (w, log) = (r, w')" for r w'
    using that by (auto simp: tracing_def split: prod.splits)
  show ?thesis
  proof (cases rule: wrapper_cases [where args = args and kwargs = kwargs and c = c
        and func = "tracing func" and w = "(w, log)"])
    case (insert result w')
    with first logged show ?thesis by (auto simp: AList.update_conv')
  next
    case (evict result w' k)
    with first logged show ?thesis by (auto simp: AList.update_conv')
  qed (use first miss in simp_all)
qed

subsection \<open>Nested calls\<close>

lemma wrapper_apart:
  "wrapper_nested (apart func) args kwargs (c, w) = wrapper func args kwargs (c, w)"
  by (simp add: wrapper_nested_def wrapper_def apart_def Let_def
      split: option.splits sum.splits prod.splits)

lemma wrapper_nested_raise:
  "key_hashable (make_key args kwargs) \<Longrightarrow>
   map_of (cache c) (make_key args kwargs) = None \<Longrightarrow>
   func args kwargs (c, w) = (Inl e, c', w') \<Longrightarrow>
   wrapper_nested func args kwargs (c, w) = (Inl (Raised e), c', w')"
  by (simp add: wrapper_nested_def Let_def)

lemma countdown_zero:
  "cached_countdown (Suc depth) [PInt 0] [] (decorator 2, ())
    = (Inr 0, \<lparr>max_limit = 2, cache = [(([PInt 0], []), 0)],
                usage = [(([PInt 0], []), 1)]\<rparr>, ())"
  by (simp add: wrapper_nested_def countdown_def Let_def make_key_def key_hashable_def
      decorator_def)

lemma countdown_one_body:
  "countdown (cached_countdown (Suc depth)) [PInt 1] [] (decorator 2, ())
    = (Inl ''ValueError'', \<lparr>max_limit = 2, cache = [(([PInt 0], []), 0)],
                usage = [(([PInt 0], []), 1)]\<rparr>, ())"
  by (simp add: countdown_def [of "cached_countdown (Suc depth)"] countdown_zero
      del: cached_countdown.simps)

section \<open>The claims\<close>



text \<open>
  C2 (a hit avoids recomputation). Take any state reached from the empty dicts, a call
  that misses there and returns \<open>v\<close>, then any calls during which its key stays
  resident (no eviction of that key), then a call with the same canonical arguments.
  That last call returns \<open>v\<close> and does not invoke the wrapped function (the log of
  invocations is as before it); and from the first call to the last the function has
  been invoked exactly once with these canonical arguments, by the first call.
\<close>

theorem hit_avoids_recomputation:
  assumes reach: "run (tracing func) calls (decorator limit, (w0, log0)) = (c, (w, log))"
    and miss: "map_of (cache c) (make_key args kwargs) = None"
    and first: "wrapper (tracing func) args kwargs (c, (w, log)) = (Inr v, s1)"
    and mid: "stays_resident (tracing func) (make_key args kwargs) mid s1"
    and last: "run (tracing func) mid s1 = (c2, (w2, log2))"
    and same: "make_key args' kwargs' = make_key args kwargs"
  shows "(\<exists>c3. wrapper (tracing func) args' kwargs' (c2, (w2, log2)) = (Inr v, c3, (w2, log2)))
    \<and> filter (\<lambda>call. make_key (fst call) (snd call) = make_key args kwargs) log2
      = filter (\<lambda>call. make_key (fst call) (snd call) = make_key args kwargs) log
        @ [(args, kwargs)]"
proof -
  let ?key = "make_key args kwargs"
  have v1: "map_of (cache (fst s1)) ?key = Some v"
    and log1: "snd (snd s1) = log @ [(args, kwargs)]"
    using first_miss [OF first miss] by simp_all
  from resident_run [OF mid v1] last
  have v2: "map_of (cache c2) ?key = Some v"
    and log2: "filter (\<lambda>call. make_key (fst call) (snd call) = ?key) log2
      = filter (\<lambda>call. make_key (fst call) (snd call) = ?key) (snd (snd s1))"
    by simp_all
  have count: "filter (\<lambda>call. make_key (fst call) (snd call) = ?key) log2
      = filter (\<lambda>call. make_key (fst call) (snd call) = ?key) log @ [(args, kwargs)]"
    using log2 log1 by simp
  have "run (tracing func) (calls @ (args, kwargs) # mid) (decorator limit, (w0, log0))
      = (c2, (w2, log2))"
    using reach first last by (simp add: run_append)
  from hit_counts [OF this, of args' kwargs' v] v2 same
  have "\<exists>c3. wrapper (tracing func) args' kwargs' (c2, (w2, log2)) = (Inr v, c3, (w2, log2))"
    by auto
  with count show ?thesis by simp
qed

theorem hit_avoids_recomputation_witness:
  "run (tracing total) [] (decorator 2, ((), [])) = (decorator 2, ((), []))
   \<and> map_of (cache (decorator 2 :: int lfu)) (make_key [PInt 1] []) = None
   \<and> wrapper (tracing total) [PInt 1] [] (decorator 2, ((), []))
       = (Inr 1,
          \<lparr>max_limit = 2, cache = [(([PInt 1], []), 1)], usage = [(([PInt 1], []), 1)]\<rparr>,
          ((), [([PInt 1], [])]))
   \<and> stays_resident (tracing total) (make_key [PInt 1] [])
        [([PInt 2], []), ([PInt 1], []), ([PInt 3], [])]
        (\<lparr>max_limit = 2, cache = [(([PInt 1], []), 1)], usage = [(([PInt 1], []), 1)]\<rparr>,
         ((), [([PInt 1], [])]))
   \<and> run (tracing total) [([PInt 2], []), ([PInt 1], []), ([PInt 3], [])]
        (\<lparr>max_limit = 2, cache = [(([PInt 1], []), 1)], usage = [(([PInt 1], []), 1)]\<rparr>,
         ((), [([PInt 1], [])]))
       = (\<lparr>max_limit = 2,
           cache = [(([PInt 1], []), 1), (([PInt 3], []), 3)],
           usage = [(([PInt 1], []), 2), (([PInt 3], []), 1)]\<rparr>,
          ((), [([PInt 1], []), ([PInt 2], []), ([PInt 3], [])]))
   \<and> wrapper (tracing total) [PInt 1] []
        (\<lparr>max_limit = 2,
          cache = [(([PInt 1], []), 1), (([PInt 3], []), 3)],
          usage = [(([PInt 1], []), 2), (([PInt 3], []), 1)]\<rparr>,
         ((), [([PInt 1], []), ([PInt 2], []), ([PInt 3], [])]))
       = (Inr 1,
          \<lparr>max_limit = 2,
           cache = [(([PInt 1], []), 1), (([PInt 3], []), 3)],
           usage = [(([PInt 1], []), 3), (([PInt 3], []), 1)]\<rparr>,
          ((), [([PInt 1], []), ([PInt 2], []), ([PInt 3], [])]))
   \<and> filter (\<lambda>call. make_key (fst call) (snd call) = make_key [PInt 1] [])
        [([PInt 1], []), ([PInt 2], []), ([PInt 3], [])]
       = [([PInt 1], [])]"
  using hit_avoids_recomputation [of total "[]" 2 "()" "[]" "decorator 2" "()" "[]"
      "[PInt 1]" "[]" 1
      "(\<lparr>max_limit = 2, cache = [(([PInt 1], []), 1)], usage = [(([PInt 1], []), 1)]\<rparr>,
         ((), [([PInt 1], [])]))"
      "[([PInt 2], []), ([PInt 1], []), ([PInt 3], [])]"
      "\<lparr>max_limit = 2,
           cache = [(([PInt 1], []), 1), (([PInt 3], []), 3)],
           usage = [(([PInt 1], []), 2), (([PInt 3], []), 1)]\<rparr>"
      "()" "[([PInt 1], []), ([PInt 2], []), ([PInt 3], [])]" "[PInt 1]" "[]"]
  by (simp add: eval_defs)

text \<open>
  C3 (capacity invariant I1). For a cache made with a positive \<open>max_limit\<close>, after any
  finite sequence of calls from the empty dicts (hits, misses and failed calls alike,
  whatever function is wrapped) the number of resident keys is at most \<open>max_limit\<close>; the
  sequence is arbitrary, so this holds after each call of it. The usage dict has as
  many keys.
\<close>

theorem capacity_invariant:
  assumes "0 < limit"
  shows "int (length (cache (fst (run func calls (decorator limit, w))))) \<le> limit
    \<and> length (usage (fst (run func calls (decorator limit, w))))
        = length (cache (fst (run func calls (decorator limit, w))))"
proof -
  let ?c = "fst (run func calls (decorator limit, w))"
  have bound: "int (length (cache ?c)) \<le> limit"
    using assms run_capacity [of "(decorator limit, w)" func calls]
    by (simp add: decorator_def keys_inv_def)
  have "keys_inv ?c"
    using run_keys_inv [of "(decorator limit, w)" func calls] by simp
  then have "map fst (cache ?c) = map fst (usage ?c)"
    by (rule keys_invD(1))
  then have "length (map fst (cache ?c)) = length (map fst (usage ?c))"
    by (rule arg_cong)
  then have "length (usage ?c) = length (cache ?c)"
    by simp
  with bound show ?thesis by simp
qed

theorem capacity_invariant_witness:
  "(0::int) < 2
   \<and> int (length (cache (fst (run total
        [([PInt 1], []), ([PInt 2], []), ([PInt 1], []), ([PInt 3], []), ([PInt 4], [])]
        (decorator 2, ()))))) \<le> 2"
  using capacity_invariant [of 2 total
      "[([PInt 1], []), ([PInt 2], []), ([PInt 1], []), ([PInt 3], []), ([PInt 4], [])]" "()"]
  by simp

text \<open>
  C4 (keyword order independence). Two calls with the same positional arguments and
  the same keyword name/value pairs, the keywords supplied in any order, build equal
  keys. So when the first of them has returned a value, the second is a hit on that
  entry: it returns the stored value without invoking the function and raises the
  counter of that one key. For instance \<open>f(x=1, y=2)\<close> and then \<open>f(y=2, x=1)\<close>.
\<close>

theorem keyword_order_independence:
  assumes "distinct (map fst kw1)" and "distinct (map fst kw2)" and "set kw1 = set kw2"
  shows "make_key args kw1 = make_key args kw2
    \<and> (wrapper func args kw1 (c, w) = (Inr v, c1, w1) \<longrightarrow>
        (\<exists>n. map_of (usage c1) (make_key args kw1) = Some n
          \<and> wrapper func args kw2 (c1, w1) =
              (Inr v, c1\<lparr>usage := AList.update (make_key args kw1) (n + 1) (usage c1)\<rparr>, w1)))"
proof -
  have key: "make_key args kw2 = make_key args kw1"
    using sort_key_names [OF assms] by (simp add: make_key_def)
  show ?thesis
    using key second_call [where func = func and args = args and kwargs = kw1 and c = c
        and w = w and v = v and ?c1.0 = c1 and ?w1.0 = w1 and args' = args and kwargs' = kw2]
    by simp
qed

theorem keyword_order_independence_witness:
  "distinct (map fst [(''x'', PInt 1), (''y'', PInt 2)])
   \<and> distinct (map fst [(''y'', PInt 2), (''x'', PInt 1)])
   \<and> set [(''x'', PInt 1), (''y'', PInt 2)] = set [(''y'', PInt 2), (''x'', PInt 1)]
   \<and> make_key [] [(''x'', PInt 1), (''y'', PInt 2)] = make_key [] [(''y'', PInt 2), (''x'', PInt 1)]
   \<and> wrapper total [] [(''x'', PInt 1), (''y'', PInt 2)] (decorator 2, ())
      = (Inr 3,
         \<lparr>max_limit = 2,
          cache = [(([], [(''x'', PInt 1), (''y'', PInt 2)]), 3)],
          usage = [(([], [(''x'', PInt 1), (''y'', PInt 2)]), 1)]\<rparr>, ())
   \<and> wrapper total [] [(''y'', PInt 2), (''x'', PInt 1)]
        (\<lparr>max_limit = 2,
          cache = [(([], [(''x'', PInt 1), (''y'', PInt 2)]), 3)],
          usage = [(([], [(''x'', PInt 1), (''y'', PInt 2)]), 1)]\<rparr>, ())
      = (Inr 3,
         \<lparr>max_limit = 2,
          cache = [(([], [(''x'', PInt 1), (''y'', PInt 2)]), 3)],
          usage = [(([], [(''x'', PInt 1), (''y'', PInt 2)]), 2)]\<rparr>, ())"
proof -
  have order: "make_key [] [(''y'', PInt 2), (''x'', PInt 1)] = ([], [(''x'', PInt 1), (''y'', PInt 2)])"
    and same: "make_key [] [(''x'', PInt 1), (''y'', PInt 2)] = ([], [(''x'', PInt 1), (''y'', PInt 2)])"
    by code_simp+
  have sets: "set [(''x'', PInt 1), (''y'', PInt 2)] = set [(''y'', PInt 2), (''x'', PInt 1)]"
    by auto
  have first: "wrapper total [] [(''x'', PInt 1), (''y'', PInt 2)] (decorator 2, ())
      = (Inr 3,
         \<lparr>max_limit = 2,
          cache = [(([], [(''x'', PInt 1), (''y'', PInt 2)]), 3)],
          usage = [(([], [(''x'', PInt 1), (''y'', PInt 2)]), 1)]\<rparr>, ())"
    by (simp add: wrapper_def Let_def same key_hashable_def decorator_def total_def)
  show ?thesis
    using keyword_order_independence [of "[(''x'', PInt 1), (''y'', PInt 2)]"
        "[(''y'', PInt 2), (''x'', PInt 1)]" "[]" total "decorator 2" "()" 3
        "\<lparr>max_limit = 2,
          cache = [(([], [(''x'', PInt 1), (''y'', PInt 2)]), 3)],
          usage = [(([], [(''x'', PInt 1), (''y'', PInt 2)]), 1)]\<rparr>" "()"]
      sets first order same
    by simp
qed

text \<open>
  C5 (frequency accounting I3). In a state reached from the empty dicts: a miss that
  completes leaves its key with counter exactly 1; a hit on a resident key completes
  and raises the counter of that key by exactly 1; and a call for one key, whatever it
  does (hit, insertion, eviction of another key, failure), leaves the counter of every
  other key that is still resident after it as it was.
\<close>

theorem frequency_accounting:
  "(run func calls (decorator limit, w0) = (c, w) \<and> 0 < limit
      \<and> key_hashable (make_key args kwargs)
      \<and> map_of (cache c) (make_key args kwargs) = None
      \<and> func args kwargs w = (Inr result, w')
    \<longrightarrow> (\<exists>c'. wrapper func args kwargs (c, w) = (Inr result, c', w')
          \<and> map_of (cache c') (make_key args kwargs) = Some result
          \<and> map_of (usage c') (make_key args kwargs) = Some 1))
   \<and> (run func calls (decorator limit, w0) = (c, w)
      \<and> map_of (cache c) (make_key args2 kwargs2) = Some v
    \<longrightarrow> (\<exists>n. map_of (usage c) (make_key args2 kwargs2) = Some n
          \<and> wrapper func args2 kwargs2 (c, w) =
              (Inr v, c\<lparr>usage := AList.update (make_key args2 kwargs2) (n + 1) (usage c)\<rparr>, w)
          \<and> map_of (usage (fst (snd (wrapper func args2 kwargs2 (c, w)))))
                (make_key args2 kwargs2) = Some (n + 1)))
   \<and> (make_key args3 kwargs3 \<noteq> k
      \<and> map_of (cache (fst (snd (wrapper func args3 kwargs3 (c, w))))) k \<noteq> None
    \<longrightarrow> map_of (usage (fst (snd (wrapper func args3 kwargs3 (c, w))))) k = map_of (usage c) k)"
  using miss_inserts [of func calls limit w0 c w args kwargs result w']
    hit_counts [of func calls limit w0 c w args2 kwargs2 v]
    other_counter [of args3 kwargs3 k func c w]
  by blast

theorem frequency_accounting_witness:
  "run total [([PInt 1], []), ([PInt 2], []), ([PInt 2], [])] (decorator 2, ())
     = (\<lparr>max_limit = 2,
         cache = [(([PInt 1], []), 1), (([PInt 2], []), 2)],
         usage = [(([PInt 1], []), 1), (([PInt 2], []), 2)]\<rparr>, ())
   \<and> (0::int) < 2
   \<and> key_hashable (make_key [PInt 3] [])
   \<and> map_of [(([PInt 1], []), 1::int), (([PInt 2], []), 2)] (make_key [PInt 3] []) = None
   \<and> total [PInt 3] [] () = (Inr 3, ())
   \<and> map_of (usage (fst (snd (wrapper total [PInt 3] []
        (\<lparr>max_limit = 2,
          cache = [(([PInt 1], []), 1), (([PInt 2], []), 2)],
          usage = [(([PInt 1], []), 1), (([PInt 2], []), 2)]\<rparr>, ()))))) (make_key [PInt 3] [])
       = Some 1
   \<and> map_of [(([PInt 1], []), 1::int), (([PInt 2], []), 2)] (make_key [PInt 2] []) = Some 2
   \<and> map_of (usage (fst (snd (wrapper total [PInt 2] []
        (\<lparr>max_limit = 2,
          cache = [(([PInt 1], []), 1), (([PInt 2], []), 2)],
          usage = [(([PInt 1], []), 1), (([PInt 2], []), 2)]\<rparr>, ()))))) (make_key [PInt 2] [])
       = Some 3
   \<and> make_key [PInt 3] [] \<noteq> ([PInt 2], [])
   \<and> map_of (cache (fst (snd (wrapper total [PInt 3] []
        (\<lparr>max_limit = 2,
          cache = [(([PInt 1], []), 1), (([PInt 2], []), 2)],
          usage = [(([PInt 1], []), 1), (([PInt 2], []), 2)]\<rparr>, ()))))) ([PInt 2], [])
       \<noteq> None
   \<and> map_of (usage (fst (snd (wrapper total [PInt 3] []
        (\<lparr>max_limit = 2,
          cache = [(([PInt 1], []), 1), (([PInt 2], []), 2)],
          usage = [(([PInt 1], []), 1), (([PInt 2], []), 2)]\<rparr>, ()))))) ([PInt 2], [])
       = Some 2"
  using frequency_accounting [of total "[([PInt 1], []), ([PInt 2], []), ([PInt 2], [])]" 2 "()"
      "\<lparr>max_limit = 2,
         cache = [(([PInt 1], []), 1), (([PInt 2], []), 2)],
         usage = [(([PInt 1], []), 1), (([PInt 2], []), 2)]\<rparr>" "()"
      "[PInt 3]" "[]" 3 "()" "[PInt 2]" "[]" 2 "[PInt 3]" "[]" "([PInt 2], [])"]
  by (simp add: eval_defs)

text \<open>
  C6 (bijection invariant I2). After every call of any finite sequence from the empty
  dicts, whether the call returned or raised, the cache and the usage dict hold the
  same keys (in the same order), each key once in each: a resident key has exactly one
  counter and a counter belongs to a resident key. An eviction therefore never leaves
  an entry without its counter or a counter without its entry. The snapshot views
  \<open>wrapper.cache\<close> and \<open>wrapper.usage\<close> are these two dicts themselves.
\<close>

theorem bijection_invariant:
  "map fst (cache (fst (run func calls (decorator limit, w))))
     = map fst (usage (fst (run func calls (decorator limit, w))))
   \<and> distinct (map fst (cache (fst (run func calls (decorator limit, w)))))
   \<and> distinct (map fst (usage (fst (run func calls (decorator limit, w)))))
   \<and> fst ` set (cache (fst (run func calls (decorator limit, w))))
     = fst ` set (usage (fst (run func calls (decorator limit, w))))
   \<and> ((map_of (cache (fst (run func calls (decorator limit, w)))) k = None)
      = (map_of (usage (fst (run func calls (decorator limit, w)))) k = None))"
proof -
  let ?c = "fst (run func calls (decorator limit, w))"
  have inv: "keys_inv ?c"
    using run_keys_inv [of "(decorator limit, w)" func calls] by simp
  have keys: "map fst (cache ?c) = map fst (usage ?c)"
    using inv by (rule keys_invD(1))
  then have "set (map fst (cache ?c)) = set (map fst (usage ?c))"
    by (rule arg_cong)
  then have sets: "fst ` set (cache ?c) = fst ` set (usage ?c)"
    by simp
  show ?thesis
    using keys keys_invD(2) [OF inv] keys_invD(3) [OF inv] sets map_of_keys_eq [OF keys]
    by blast
qed

theorem bijection_invariant_witness:
  "map fst (cache (fst (run total
       [([PInt 1], []), ([PList []], []), ([PInt 2], []), ([PStr ''a''], []), ([PInt 3], [])]
       (decorator 2, ()))))
     = [([PInt 2], []), ([PInt 3], [])]
   \<and> map fst (usage (fst (run total
       [([PInt 1], []), ([PList []], []), ([PInt 2], []), ([PStr ''a''], []), ([PInt 3], [])]
       (decorator 2, ()))))
     = [([PInt 2], []), ([PInt 3], [])]"
  using bijection_invariant [of total
       "[([PInt 1], []), ([PList []], []), ([PInt 2], []), ([PStr ''a''], []), ([PInt 3], [])]"
       2 "()"]
  by (simp add: eval_defs)

text \<open>
  C7 (computation error atomicity), as the claim states it: a call whose computation
  raises would leave both maps exactly as they were. The recursive function \<open>f\<close> above,
  called as \<open>f(1)\<close> on the empty dicts, raises ValueError after its nested call \<open>f(0)\<close>
  has returned and been cached: the error reaches the caller, and the dicts hold the
  key of \<open>f(0)\<close>.
\<close>

theorem computation_error_counterexample:
  "key_hashable (make_key [PInt 1] [])
   \<and> map_of (cache (decorator 2 :: int lfu)) (make_key [PInt 1] []) = None
   \<and> fst (countdown (cached_countdown 1) [PInt 1] [] (decorator 2, ())) = Inl ''ValueError''
   \<and> cached_countdown 2 [PInt 1] [] (decorator 2, ())
       = (Inl (Raised ''ValueError''),
          \<lparr>max_limit = 2, cache = [(([PInt 0], []), 0)], usage = [(([PInt 0], []), 1)]\<rparr>, ())
   \<and> fst (snd (cached_countdown 2 [PInt 1] [] (decorator 2, ()))) \<noteq> decorator 2"
proof -
  have body: "countdown (cached_countdown 1) [PInt 1] [] (decorator 2, ())
    = (Inl ''ValueError'', \<lparr>max_limit = 2, cache = [(([PInt 0], []), 0)],
                usage = [(([PInt 0], []), 1)]\<rparr>, ())"
    using countdown_one_body [of 0] by simp
  have key: "key_hashable (make_key [PInt 1] [])"
    and miss: "map_of (cache (decorator 2 :: int lfu)) (make_key [PInt 1] []) = None"
    by (simp_all add: make_key_def key_hashable_def decorator_def)
  have "cached_countdown 2 [PInt 1] [] (decorator 2, ())
      = wrapper_nested (countdown (cached_countdown 1)) [PInt 1] [] (decorator 2, ())"
    by (simp add: numeral_2_eq_2)
  also have "\<dots> = (Inl (Raised ''ValueError''),
          \<lparr>max_limit = 2, cache = [(([PInt 0], []), 0)], usage = [(([PInt 0], []), 1)]\<rparr>, ())"
    using key miss body by (rule wrapper_nested_raise)
  finally show ?thesis
    using key miss body by (simp add: decorator_def)
qed

text \<open>
  C7 as amended. A call whose computation raises \<open>e\<close> raises that same \<open>e\<close>, and the
  wrapper adds no entry and evicts nothing after the computation: both dicts are
  exactly as the computation left them, in any state. When the computation leaves the
  dicts alone (it makes no nested call of the cached function), they are exactly as
  they were before the call.
\<close>

theorem computation_error_propagates:
  "(key_hashable (make_key args kwargs)
      \<and> map_of (cache c) (make_key args kwargs) = None
      \<and> func args kwargs (c, w) = (Inl e, c', w')
    \<longrightarrow> wrapper_nested func args kwargs (c, w) = (Inl (Raised e), c', w'))
   \<and> (key_hashable (make_key args2 kwargs2)
      \<and> map_of (cache c2) (make_key args2 kwargs2) = None
      \<and> g args2 kwargs2 w2 = (Inl e2, w2')
    \<longrightarrow> wrapper_nested (apart g) args2 kwargs2 (c2, w2) = (Inl (Raised e2), c2, w2')
        \<and> wrapper g args2 kwargs2 (c2, w2) = (Inl (Raised e2), c2, w2'))"
proof -
  have nested: "wrapper_nested func args kwargs (c, w) = (Inl (Raised e), c', w')"
    if "key_hashable (make_key args kwargs)"
      and "map_of (cache c) (make_key args kwargs) = None"
      and "func args kwargs (c, w) = (Inl e, c', w')"
    using that by (rule wrapper_nested_raise)
  have alone: "wrapper g args2 kwargs2 (c2, w2) = (Inl (Raised e2), c2, w2')"
    if "key_hashable (make_key args2 kwargs2)"
      and "map_of (cache c2) (make_key args2 kwargs2) = None"
      and "g args2 kwargs2 w2 = (Inl e2, w2')"
    using that by (rule wrapper_raise)
  show ?thesis
    using nested alone by (simp add: wrapper_apart)
qed

theorem computation_error_propagates_witness:
  "key_hashable (make_key [PInt 1] [])
   \<and> map_of (cache (decorator 2 :: int lfu)) (make_key [PInt 1] []) = None
   \<and> countdown (cached_countdown 1) [PInt 1] [] (decorator 2, ())
       = (Inl ''ValueError'',
          \<lparr>max_limit = 2, cache = [(([PInt 0], []), 0)], usage = [(([PInt 0], []), 1)]\<rparr>, ())
   \<and> wrapper_nested (countdown (cached_countdown 1)) [PInt 1] [] (decorator 2, ())
       = (Inl (Raised ''ValueError''),
          \<lparr>max_limit = 2, cache = [(([PInt 0], []), 0)], usage = [(([PInt 0], []), 1)]\<rparr>, ())
   \<and> key_hashable (make_key [PStr ''a''] [])
   \<and> map_of (cache \<lparr>max_limit = 2,
          cache = [(([PInt 1], []), 1::int), (([PInt 2], []), 2)],
          usage = [(([PInt 1], []), 1), (([PInt 2], []), 1)]\<rparr>) (make_key [PStr ''a''] []) = None
   \<and> total [PStr ''a''] [] () = (Inl ''unsupported operand'', ())
   \<and> wrapper total [PStr ''a''] []
        (\<lparr>max_limit = 2,
          cache = [(([PInt 1], []), 1), (([PInt 2], []), 2)],
          usage = [(([PInt 1], []), 1), (([PInt 2], []), 1)]\<rparr>, ())
      = (Inl (Raised ''unsupported operand''),
         \<lparr>max_limit = 2,
          cache = [(([PInt 1], []), 1), (([PInt 2], []), 2)],
          usage = [(([PInt 1], []), 1), (([PInt 2], []), 1)]\<rparr>, ())"
proof -
  have body: "countdown (cached_countdown 1) [PInt 1] [] (decorator 2, ())
       = (Inl ''ValueError'',
          \<lparr>max_limit = 2, cache = [(([PInt 0], []), 0)], usage = [(([PInt 0], []), 1)]\<rparr>, ())"
    using countdown_one_body [of 0] by simp
  have keys: "key_hashable (make_key [PInt 1] [])" "key_hashable (make_key [PStr ''a''] [])"
    by (simp_all add: make_key_def key_hashable_def)
  have misses: "map_of (cache (decorator 2 :: int lfu)) (make_key [PInt 1] []) = None"
    "map_of (cache \<lparr>max_limit = 2,
          cache = [(([PInt 1], []), 1::int), (([PInt 2], []), 2)],
          usage = [(([PInt 1], []), 1), (([PInt 2], []), 1)]\<rparr>) (make_key [PStr ''a''] []) = None"
    by (simp_all add: make_key_def decorator_def)
  have raises: "total [PStr ''a''] [] () = (Inl ''unsupported operand'', ())"
    by (simp add: total_def)
  show ?thesis
    using computation_error_propagates [where func = "countdown (cached_countdown 1)"
        and args = "[PInt 1]" and kwargs = "[]" and c = "decorator 2" and w = "()"
        and e = "''ValueError''"
        and c' = "\<lparr>max_limit = 2, cache = [(([PInt 0], []), 0)],
                  usage = [(([PInt 0], []), 1)]\<rparr>"
        and w' = "()" and g = total and ?args2.0 = "[PStr ''a'']" and ?kwargs2.0 = "[]"
        and ?c2.0 = "\<lparr>max_limit = 2,
          cache = [(([PInt 1], []), 1), (([PInt 2], []), 2)],
          usage = [(([PInt 1], []), 1), (([PInt 2], []), 1)]\<rparr>"
        and ?w2.0 = "()" and ?e2.0 = "''unsupported operand''" and w2' = "()"]
      body keys misses raises
    by simp
qed

text \<open>
  C8 (unkeyable arguments), as the claim states it: the call would fail with
  InvalidKeyError. The call \<open>f([])\<close> fails with Python's TypeError instead; the source
  has no InvalidKeyError.
\<close>

theorem unkeyable_call_counterexample:
  "\<not> key_hashable (make_key [PList []] [])
   \<and> fst (wrapper total [PList []] [] (decorator 2, ())) = Inl TypeError
   \<and> fst (wrapper total [PList []] [] (decorator 2, ())) \<noteq> Inl (PyExc ''InvalidKeyError'')"
  by (simp add: wrapper_def make_key_def key_hashable_def)

text \<open>
  C8 as amended. A call whose arguments cannot be hashed into a key fails with
  TypeError, raised by the lookup \<open>key in cache\<close> before the wrapped function is
  invoked (the log of invocations is as before), and the cache state is unchanged.
\<close>

theorem unkeyable_call_type_error:
  assumes "\<not> key_hashable (make_key args kwargs)"
  shows "wrapper func args kwargs (c, w) = (Inl TypeError, c, w)
    \<and> wrapper (tracing func) args kwargs (c, (w, log)) = (Inl TypeError, c, (w, log))"
  using assms by (simp add: wrapper_unhashable)

theorem unkeyable_call_type_error_witness:
  "\<not> key_hashable (make_key [PInt 1] [(''opts'', PTuple [PInt 2, PList [PInt 3]])])
   \<and> wrapper (tracing total) [PInt 1] [(''opts'', PTuple [PInt 2, PList [PInt 3]])]
        (decorator 2, ((), []))
      = (Inl TypeError, decorator 2, ((), []))"
  using unkeyable_call_type_error [of "[PInt 1]" "[(''opts'', PTuple [PInt 2, PList [PInt 3]])]"
      total "decorator 2" "()" "[]"]
  by (simp add: make_key_def key_hashable_def)

text \<open>
  C9 (invalid configuration rejected), as the claim states it: constructing with
  \<open>max_limit = 0\<close> or a negative \<open>max_limit\<close> would fail with InvalidConfigurationError.
  \<open>lfu_cache(0)\<close> and \<open>lfu_cache(-1)\<close> succeed and give a cache with two empty dicts.
\<close>

theorem construction_counterexample:
  "(lfu_cache 0 :: string py_exception + int lfu) = Inr \<lparr>max_limit = 0, cache = [], usage = []\<rparr>
   \<and> (lfu_cache (- 1) :: string py_exception + int lfu)
       = Inr \<lparr>max_limit = - 1, cache = [], usage = []\<rparr>
   \<and> (lfu_cache 0 :: string py_exception + int lfu) \<noteq> Inl (PyExc ''InvalidConfigurationError'')"
  by (simp add: lfu_cache_def decorator_def)

text \<open>
  C9 as amended. Constructing a cache never fails, whatever \<open>max_limit\<close> is, zero and
  negative values included: the result is a cache instance with that \<open>max_limit\<close> and
  two empty dicts.
\<close>

theorem construction_never_fails:
  "(lfu_cache limit :: 'e py_exception + 'v lfu)
     = Inr \<lparr>max_limit = limit, cache = [], usage = []\<rparr>"
  by (simp add: lfu_cache_def decorator_def)

text \<open>
  C10 (degenerate capacity), as the claim states it: with \<open>max_limit \<le> 0\<close> every call
  would miss, invoke the wrapped function and then raise the error of \<open>min\<close> over the
  empty usage dict. With \<open>max_limit = 0\<close>, a call whose function raises fails with the
  error of the function, and a call with an unhashable argument fails with TypeError
  without invoking the function; neither raises the ValueError of \<open>min\<close>.
\<close>

theorem degenerate_capacity_counterexample:
  "(lfu_cache 0 :: string py_exception + int lfu) = Inr (decorator 0)
   \<and> key_hashable (make_key [PStr ''a''] [])
   \<and> wrapper (tracing total) [PStr ''a''] [] (decorator 0, ((), []))
       = (Inl (Raised ''unsupported operand''), decorator 0, ((), [([PStr ''a''], [])]))
   \<and> fst (wrapper (tracing total) [PStr ''a''] [] (decorator 0, ((), []))) \<noteq> Inl ValueError
   \<and> wrapper (tracing total) [PList []] [] (decorator 0, ((), []))
       = (Inl TypeError, decorator 0, ((), []))
   \<and> fst (wrapper (tracing total) [PList []] [] (decorator 0, ((), []))) \<noteq> Inl ValueError"
  by (simp add: eval_defs)

text \<open>
  C10 as amended. With \<open>max_limit \<le> 0\<close> the construction succeeds. From then on both
  dicts stay empty after any sequence of calls and no call ever returns a value. A
  call with a hashable key is a miss and invokes the wrapped function exactly once:
  when the function returns, the call raises the ValueError of \<open>min\<close> over the empty
  usage dict; when the function raises, the call raises that error. A call with an
  unhashable key raises TypeError and does not invoke the function.
\<close>

theorem degenerate_capacity:
  fixes func :: "('e, 'v, 'w) func"
  assumes "limit \<le> 0"
  shows "(lfu_cache limit :: 'e py_exception + 'v lfu) = Inr (decorator limit)
    \<and> fst (run func calls (decorator limit, w0)) = decorator limit
    \<and> fst (snd (wrapper func args kwargs (decorator limit, w))) = decorator limit
    \<and> (\<forall>v. fst (wrapper func args kwargs (decorator limit, w)) \<noteq> Inr v)
    \<and> (key_hashable (make_key args kwargs) \<longrightarrow>
         snd (snd (snd (wrapper (tracing func) args kwargs (decorator limit, (w, log)))))
           = log @ [(args, kwargs)])
    \<and> (key_hashable (make_key args kwargs) \<and> func args kwargs w = (Inr result, w') \<longrightarrow>
         wrapper func args kwargs (decorator limit, w) = (Inl ValueError, decorator limit, w'))
    \<and> (key_hashable (make_key args2 kwargs2) \<and> func args2 kwargs2 w = (Inl e, w2) \<longrightarrow>
         wrapper func args2 kwargs2 (decorator limit, w) = (Inl (Raised e), decorator limit, w2))
    \<and> (\<not> key_hashable (make_key args3 kwargs3) \<longrightarrow>
         wrapper (tracing func) args3 kwargs3 (decorator limit, (w, log))
           = (Inl TypeError, decorator limit, (w, log)))"
proof -
  have construct: "(lfu_cache limit :: 'e py_exception + 'v lfu) = Inr (decorator limit)"
    by (simp add: lfu_cache_def)
  have runs: "fst (run func calls (decorator limit, w0)) = decorator limit"
    using assms by (intro run_degenerate) simp_all
  have stays: "fst (snd (wrapper func args kwargs (decorator limit, w))) = decorator limit"
    using assms by (rule run_empty_stays)
  have fails: "\<forall>v. fst (wrapper func args kwargs (decorator limit, w)) \<noteq> Inr v"
    using assms
    by (auto simp: wrapper_def Let_def decorator_def min_usage_def
        split: option.splits sum.splits prod.splits)
  have invoked: "snd (snd (snd (wrapper (tracing func) args kwargs (decorator limit, (w, log)))))
           = log @ [(args, kwargs)]" if "key_hashable (make_key args kwargs)"
    using that assms
    by (auto simp: wrapper_def Let_def decorator_def min_usage_def tracing_def
        split: option.splits sum.splits prod.splits)
  have min_fails: "wrapper func args kwargs (decorator limit, w)
      = (Inl ValueError, decorator limit, w')"
    if "key_hashable (make_key args kwargs)" and "func args kwargs w = (Inr result, w')"
    using that assms
    by (simp add: wrapper_def Let_def decorator_def min_usage_def)
  have raised: "wrapper func args2 kwargs2 (decorator limit, w)
      = (Inl (Raised e), decorator limit, w2)"
    if "key_hashable (make_key args2 kwargs2)" and "func args2 kwargs2 w = (Inl e, w2)"
    using that by (intro wrapper_raise) (simp_all add: decorator_def)
  have unkeyable: "wrapper (tracing func) args3 kwargs3 (decorator limit, (w, log))
           = (Inl TypeError, decorator limit, (w, log))"
    if "\<not> key_hashable (make_key args3 kwargs3)"
    using that by (rule wrapper_unhashable)
  show ?thesis
    using construct runs stays fails invoked min_fails raised unkeyable by blast
qed

theorem degenerate_capacity_witness:
  "(0::int) \<le> 0
   \<and> (lfu_cache 0 :: string py_exception + int lfu) = Inr (decorator 0)
   \<and> fst (run total [([PInt 1], []), ([PInt 1], []), ([PInt 2], [])] (decorator 0, ()))
       = decorator 0
   \<and> key_hashable (make_key [PInt 1] [])
   \<and> total [PInt 1] [] () = (Inr 1, ())
   \<and> snd (snd (snd (wrapper (tracing total) [PInt 1] [] (decorator 0, ((), [])))))
       = [([PInt 1], [])]
   \<and> wrapper total [PInt 1] [] (decorator 0, ()) = (Inl ValueError, decorator 0, ())
   \<and> key_hashable (make_key [PStr ''a''] [])
   \<and> total [PStr ''a''] [] () = (Inl ''unsupported operand'', ())
   \<and> wrapper total [PStr ''a''] [] (decorator 0, ())
       = (Inl (Raised ''unsupported operand''), decorator 0, ())
   \<and> \<not> key_hashable (make_key [PList []] [])
   \<and> wrapper (tracing total) [PList []] [] (decorator 0, ((), []))
       = (Inl TypeError, decorator 0, ((), []))"
  using degenerate_capacity [where limit = 0 and func = total
      and calls = "[([PInt 1], []), ([PInt 1], []), ([PInt 2], [])]" and ?w0.0 = "()"
      and args = "[PInt 1]" and kwargs = "[]" and w = "()" and log = "[]" and result = 1
      and w' = "()" and ?args2.0 = "[PStr ''a'']" and ?kwargs2.0 = "[]"
      and e = "''unsupported operand''" and ?w2.0 = "()"
      and ?args3.0 = "[PList []]" and ?kwargs3.0 = "[]"]
  by (simp add: eval_defs)

end
